theory Spec2Isabelle
  imports Complex_Main "HOL-Library.Sublist"
begin

section \<open>JavaScript strings and arrays used by server.js\<close>

text \<open>
  A JavaScript string is modelled as a \<^typ>\<open>string\<close> whose characters are the code units
  0 to 255 (the Latin-1 range of UTF-16). On that range \<^verbatim>\<open>String.prototype.trim\<close> and
  \<^verbatim>\<open>String.prototype.toLowerCase\<close> work unit by unit, as written below. A similarity
  score is a finite JavaScript number, modelled exactly as a \<^typ>\<open>rat\<close>.
\<close>

text \<open>White space and line terminators that \<^verbatim>\<open>trim()\<close> removes: TAB, LF, VT, FF, CR, SP, NBSP.\<close>

definition isWhiteSpace :: "char \<Rightarrow> bool" where
  "isWhiteSpace c \<longleftrightarrow>
     c \<in> set [CHR 0x09, CHR 0x0A, CHR 0x0B, CHR 0x0C, CHR 0x0D, CHR 0x20, CHR 0xA0]"

definition trim :: "string \<Rightarrow> string" where
  "trim s = rev (dropWhile isWhiteSpace (rev (dropWhile isWhiteSpace s)))"

text \<open>Upper-case letters below 256: A to Z, and U+00C0 to U+00DE without the sign U+00D7.\<close>

definition isUpper :: "char \<Rightarrow> bool" where
  "isUpper c \<longleftrightarrow>
     (let n = (of_char c :: nat)
      in (65 \<le> n \<and> n \<le> 90) \<or> (192 \<le> n \<and> n \<le> 222 \<and> n \<noteq> 215))"

definition lowerChar :: "char \<Rightarrow> char" where
  "lowerChar c = (if isUpper c then char_of (of_char c + (32::nat)) else c)"

definition toLowerCase :: "string \<Rightarrow> string" where
  "toLowerCase s = map lowerChar s"

text \<open>\<^verbatim>\<open>s.includes(p)\<close>: \<open>p\<close> occurs in \<open>s\<close> as a contiguous run of characters.\<close>

fun str_includes :: "string \<Rightarrow> string \<Rightarrow> bool" where
  "str_includes [] p = (p = [])"
| "str_includes (c # cs) p = (prefix p (c # cs) \<or> str_includes cs p)"

text \<open>\<^verbatim>\<open>parts.join(sep)\<close> on an array of strings.\<close>

fun join :: "string \<Rightarrow> string list \<Rightarrow> string" where
  "join sep [] = []"
| "join sep [x] = x"
| "join sep (x # y # ys) = x @ sep @ join sep (y # ys)"

section \<open>Data model\<close>

text \<open>A turn of the conversation is the object \<^verbatim>\<open>{ role: r, parts: [{ text: t }] }\<close>.\<close>

record part =
  text_of :: string

record turn =
  role :: string
  parts :: "part list"

definition userTurn :: "string \<Rightarrow> turn" where
  "userTurn question = \<lparr>role = ''user'', parts = [\<lparr>text_of = question\<rparr>]\<rparr>"

definition modelTurn :: "string \<Rightarrow> turn" where
  "modelTurn answer = \<lparr>role = ''model'', parts = [\<lparr>text_of = answer\<rparr>]\<rparr>"

text \<open>The value stored per session: \<^verbatim>\<open>{ namespace, history: [] }\<close>.\<close>

record session =
  namespace :: string
  history :: "turn list"

text \<open>\<^verbatim>\<open>sessionStore\<close> is a \<^verbatim>\<open>Map\<close> from session identifiers to sessions.\<close>

type_synonym store = "string \<rightharpoonup> session"

record document =
  pageContent :: string

type_synonym score = rat

type_synonym vector = "rat list"

text \<open>A thrown \<^verbatim>\<open>Error\<close>; the handlers read only its \<^verbatim>\<open>message\<close>.\<close>

datatype js_error = Error (message: string)

section \<open>External collaborators\<close>

text \<open>
  Every call into the Gemini, embedding and Pinecone SDKs either returns a value or throws.
  The collaborators are parameters of the model; a request sees one \<open>collab\<close>.
  \<^item> \<open>llm_rewrite\<close>: \<^verbatim>\<open>getGenerativeModel\<close> with the system instruction, then
    \<^verbatim>\<open>generateContent({ contents })\<close> and \<^verbatim>\<open>response.text()\<close> (lines 212 to 220);
  \<^item> \<open>embedQuery\<close>: the embeddings client and \<^verbatim>\<open>embedQuery\<close> (lines 138 to 143);
  \<^item> \<open>fromExistingIndex\<close>: \<^verbatim>\<open>PineconeStore.fromExistingIndex\<close> for a namespace (lines 147 to 150);
  \<^item> \<open>similaritySearchVectorWithScore\<close>: the top-k search in a namespace (lines 153 to 156);
  \<^item> \<open>llm_generate\<close>: \<^verbatim>\<open>getGenerativeModel\<close>, \<^verbatim>\<open>generateContent(prompt)\<close> and
    \<^verbatim>\<open>response.text()\<close> (lines 233 to 243).
\<close>

record collab =
  llm_rewrite :: "turn list \<Rightarrow> js_error + string"
  embedQuery :: "string \<Rightarrow> js_error + vector"
  fromExistingIndex :: "string \<Rightarrow> js_error + unit"
  similaritySearchVectorWithScore :: "string \<Rightarrow> vector \<Rightarrow> nat \<Rightarrow> js_error + (document \<times> score) list"
  llm_generate :: "string \<Rightarrow> js_error + string"

text \<open>The record of collaborator calls a request makes, in order.\<close>

datatype call =
    RewriteCall "turn list"
  | EmbedCall string
  | IndexCall string
  | SearchCall string vector nat
  | GenerateCall string

fun isRewriteCall :: "call \<Rightarrow> bool" where
  "isRewriteCall (RewriteCall _) = True"
| "isRewriteCall _ = False"

fun isGenerateCall :: "call \<Rightarrow> bool" where
  "isGenerateCall (GenerateCall _) = True"
| "isGenerateCall _ = False"

section \<open>The helpers transformQuery and generateAnswer\<close>

definition refusal :: string where
  \<open>refusal = ''I couldn't find the answer in the document.''\<close>

text \<open>\<^verbatim>\<open>transformQuery(question, history)\<close>, lines 202 to 225; the catch returns the question.\<close>

definition transformQuery :: "collab \<Rightarrow> string \<Rightarrow> turn list \<Rightarrow> string \<times> call list" where
  "transformQuery env question hist =
     (if length hist = 0 then (question, [])
      else
        let tempHistory = hist @ [\<lparr>role = ''user'', parts = [\<lparr>text_of = question\<rparr>]\<rparr>]
        in (case llm_rewrite env tempHistory of
              Inr rewritten \<Rightarrow> (rewritten, [RewriteCall tempHistory])
            | Inl error \<Rightarrow> (question, [RewriteCall tempHistory])))"

text \<open>The prompt template of line 231.\<close>

definition prompt :: "string \<Rightarrow> string \<Rightarrow> string" where
  \<open>prompt question context =
     ''Context: '' @ context @ [CHR 0x0A, CHR 0x0A] @ ''Question: '' @ question
       @ [CHR 0x0A, CHR 0x0A]
       @ ''Answer the question using ONLY the context above. If the answer cannot be found in the context, say "I couldn't find the answer in the document."''\<close>

text \<open>\<^verbatim>\<open>generateAnswer(question, context)\<close>, lines 228 to 256; the catch returns the refusal.\<close>

definition generateAnswer :: "collab \<Rightarrow> string \<Rightarrow> string \<Rightarrow> string \<times> call list" where
  \<open>generateAnswer env question context =
     (case llm_generate env (prompt question context) of
        Inr answer \<Rightarrow>
          (if str_includes (toLowerCase answer) ''couldn't find''
              \<or> str_includes (toLowerCase answer) ''don't know''
           then ''I couldn't find the answer in the document.''
           else answer,
           [GenerateCall (prompt question context)])
      | Inl error \<Rightarrow>
          (''I couldn't find the answer in the document.'',
           [GenerateCall (prompt question context)]))\<close>

section \<open>Relevance filter and context assembly\<close>

definition similarityThreshold :: score where
  "similarityThreshold = 0.5"

text \<open>Lines 162 to 164.\<close>

definition relevantResults :: "(document \<times> score) list \<Rightarrow> (document \<times> score) list" where
  "relevantResults results = filter (\<lambda>(_, score). score \<ge> similarityThreshold) results"

definition separator :: string where
  "separator = [CHR 0x0A, CHR 0x0A] @ ''---'' @ [CHR 0x0A, CHR 0x0A]"

text \<open>Lines 168 to 179: the value of \<^verbatim>\<open>context\<close> after the conditional.\<close>

definition assembleContext :: "(document \<times> score) list \<Rightarrow> string" where
  "assembleContext results =
     (if length (relevantResults results) > 0
      then join separator
             (filter (\<lambda>text. length (trim text) > 0)
                (map (\<lambda>(doc, _). pageContent doc) (relevantResults results)))
      else [])"

text \<open>
  The relevance filter as the specification words it: drop the results scoring strictly
  below the threshold, keep the order, skip the texts that are empty once trimmed, join
  with the separator.
\<close>

definition spec_survivors :: "(document \<times> score) list \<Rightarrow> (document \<times> score) list" where
  "spec_survivors results = [r \<leftarrow> results. \<not> snd r < 0.5]"

definition spec_context :: "(document \<times> score) list \<Rightarrow> string" where
  "spec_context results =
     join ([CHR 0x0A, CHR 0x0A] @ ''---'' @ [CHR 0x0A, CHR 0x0A])
       [pageContent (fst r). r \<leftarrow> spec_survivors results, trim (pageContent (fst r)) \<noteq> []]"

text \<open>
  The refusal detector as the specification words it: some phrase of the fixed set occurs
  in the text as a substring, letter case ignored.
\<close>

definition inabilityPhrases :: "string list" where
  \<open>inabilityPhrases = [''couldn't find'', ''don't know'']\<close>

definition containsIgnoringCase :: "string \<Rightarrow> string \<Rightarrow> bool" where
  "containsIgnoringCase txt phrase \<longleftrightarrow>
     (\<exists>before middle after. txt = before @ middle @ after
        \<and> toLowerCase middle = toLowerCase phrase)"

section \<open>HTTP responses\<close>

datatype body =
    ErrorBody string
  | AnswerBody string
  | UploadBody string string

record response =
  status :: nat
  body :: body

text \<open>What a handler run leaves: the response, the collaborator calls and the registry.\<close>

record outcome =
  response :: response
  calls :: "call list"
  sessionStore :: store

definition reply :: "nat \<Rightarrow> body \<Rightarrow> call list \<Rightarrow> store \<Rightarrow> outcome" where
  "reply code b cs st = \<lparr>response = \<lparr>status = code, body = b\<rparr>, calls = cs, sessionStore = st\<rparr>"

section \<open>The /ask handler\<close>

text \<open>The JSON body of the request; a missing field is \<open>None\<close>.\<close>

record ask_body =
  question :: "string option"
  sessionId :: "string option"

text \<open>
  Lines 137 to 156: embed the query, open the vector store on the namespace, search the
  ten nearest chunks. The first call that throws ends the retrieval with its error.
\<close>

definition retrieve ::
  "collab \<Rightarrow> string \<Rightarrow> string \<Rightarrow> (js_error + (document \<times> score) list) \<times> call list" where
  "retrieve env transformedQuery ns =
     (case embedQuery env transformedQuery of
        Inl error \<Rightarrow> (Inl error, [EmbedCall transformedQuery])
      | Inr queryVector \<Rightarrow>
          (case fromExistingIndex env ns of
             Inl error \<Rightarrow> (Inl error, [EmbedCall transformedQuery, IndexCall ns])
           | Inr vectorStore \<Rightarrow>
               (similaritySearchVectorWithScore env ns queryVector 10,
                [EmbedCall transformedQuery, IndexCall ns, SearchCall ns queryVector 10])))"

text \<open>
  Lines 116 to 199. \<^verbatim>\<open>!question || !sessionId\<close> holds for a missing field and for the
  empty string. The two \<^verbatim>\<open>history.push\<close> calls change the session object held by the
  registry; the catch of line 195 answers 500 with the message of the error.
\<close>

definition ask :: "collab \<Rightarrow> ask_body \<Rightarrow> store \<Rightarrow> outcome" where
  "ask env req st =
     (case (question req, sessionId req) of
        (Some q, Some sid) \<Rightarrow>
          if q = [] \<or> sid = []
          then reply 400 (ErrorBody ''Missing question or session ID'') [] st
          else
            (case st sid of
               None \<Rightarrow> reply 400 (ErrorBody ''Invalid session ID'') [] st
             | Some session \<Rightarrow>
                 let (transformedQuery, rewriteCalls) = transformQuery env q (history session);
                     (found, retrieveCalls) = retrieve env transformedQuery (namespace session)
                 in (case found of
                       Inl error \<Rightarrow>
                         reply 500 (ErrorBody (''Failed to process question: '' @ message error))
                           (rewriteCalls @ retrieveCalls) st
                     | Inr results \<Rightarrow>
                         let context = assembleContext results;
                             (answer, generateCalls) =
                               (if context \<noteq> [] then generateAnswer env q context
                                else (''I couldn't find the answer in the document.'', []));
                             history' = history session
                               @ [\<lparr>role = ''user'', parts = [\<lparr>text_of = q\<rparr>]\<rparr>]
                               @ [\<lparr>role = ''model'', parts = [\<lparr>text_of = answer\<rparr>]\<rparr>]
                         in reply 200 (AnswerBody answer)
                              (rewriteCalls @ retrieveCalls @ generateCalls)
                              (st(sid \<mapsto> session\<lparr>history := history'\<rparr>))))
      | _ \<Rightarrow> reply 400 (ErrorBody ''Missing question or session ID'') [] st)"

section \<open>The /ask handler between its awaits\<close>

text \<open>
  The handler is an async function: it runs without interruption up to an \<^verbatim>\<open>await\<close>, and
  while it waits for a collaborator the handlers of other requests run. A request in
  flight is suspended at one of the awaits of lines 134, 143, 147, 153 and 184; the stage
  names the await and holds what the handler needs when it goes on.
\<close>

datatype stage =
    Transforming string
  | Embedding string
  | Opening vector
  | Searching vector
  | Generating string

record in_flight =
  flight_env :: collab
  flight_request :: ask_body
  flight_question :: string
  flight_session :: string
  flight_namespace :: string
  flight_stage :: stage
  flight_calls :: "call list"

text \<open>
  Lines 117 to 134, up to the first await: the two checks, the session read from the
  registry, and the part of \<^verbatim>\<open>transformQuery\<close> that runs at once. That part reads
  \<^verbatim>\<open>history.length\<close> and copies the history (line 209), so the rewriting sees the history
  as it is when the request arrives. A request that fails a check is answered at once.
\<close>

definition ask_submit :: "collab \<Rightarrow> ask_body \<Rightarrow> store \<Rightarrow> outcome + in_flight" where
  "ask_submit env req st =
     (case (question req, sessionId req) of
        (Some q, Some sid) \<Rightarrow>
          if q = [] \<or> sid = []
          then Inl (reply 400 (ErrorBody ''Missing question or session ID'') [] st)
          else
            (case st sid of
               None \<Rightarrow> Inl (reply 400 (ErrorBody ''Invalid session ID'') [] st)
             | Some session \<Rightarrow>
                 let (transformedQuery, rewriteCalls) = transformQuery env q (history session)
                 in Inr \<lparr>flight_env = env, flight_request = req, flight_question = q,
                         flight_session = sid, flight_namespace = namespace session,
                         flight_stage = Transforming transformedQuery,
                         flight_calls = rewriteCalls\<rparr>)
      | _ \<Rightarrow> Inl (reply 400 (ErrorBody ''Missing question or session ID'') [] st))"

text \<open>
  Lines 189 to 194: the two pushes and the response, with no await between them. The
  pushes go to the array read at line 131. /ask never removes or replaces a session, so
  in a run of /ask requests that array is the history the registry holds for the session
  when the pushes happen.
\<close>

definition finish :: "in_flight \<Rightarrow> string \<Rightarrow> store \<Rightarrow> outcome" where
  "finish f answer st =
     reply 200 (AnswerBody answer) (flight_calls f)
       (case st (flight_session f) of
          None \<Rightarrow> st
        | Some session \<Rightarrow>
            st(flight_session f \<mapsto>
                 session\<lparr>history := history session
                   @ [\<lparr>role = ''user'', parts = [\<lparr>text_of = flight_question f\<rparr>]\<rparr>]
                   @ [\<lparr>role = ''model'', parts = [\<lparr>text_of = answer\<rparr>]\<rparr>]\<rparr>))"

text \<open>
  The handler going on from an await until the next one, or until it responds: the
  awaited call returns or throws, a throw is answered 500 by the catch of line 195, and
  otherwise the next call is made. After the search (lines 158 to 187) an empty context
  leads to the pushes at once, with the refusal as the answer.
\<close>

definition ask_resume :: "in_flight \<Rightarrow> store \<Rightarrow> outcome + in_flight" where
  "ask_resume f st =
     (case flight_stage f of
        Transforming transformedQuery \<Rightarrow>
          Inr (f\<lparr>flight_stage := Embedding transformedQuery,
                 flight_calls := flight_calls f @ [EmbedCall transformedQuery]\<rparr>)
      | Embedding transformedQuery \<Rightarrow>
          (case embedQuery (flight_env f) transformedQuery of
             Inl error \<Rightarrow>
               Inl (reply 500 (ErrorBody (''Failed to process question: '' @ message error))
                      (flight_calls f) st)
           | Inr queryVector \<Rightarrow>
               Inr (f\<lparr>flight_stage := Opening queryVector,
                      flight_calls := flight_calls f @ [IndexCall (flight_namespace f)]\<rparr>))
      | Opening queryVector \<Rightarrow>
          (case fromExistingIndex (flight_env f) (flight_namespace f) of
             Inl error \<Rightarrow>
               Inl (reply 500 (ErrorBody (''Failed to process question: '' @ message error))
                      (flight_calls f) st)
           | Inr vectorStore \<Rightarrow>
               Inr (f\<lparr>flight_stage := Searching queryVector,
                      flight_calls := flight_calls f
                        @ [SearchCall (flight_namespace f) queryVector 10]\<rparr>))
      | Searching queryVector \<Rightarrow>
          (case similaritySearchVectorWithScore (flight_env f) (flight_namespace f)
                  queryVector 10 of
             Inl error \<Rightarrow>
               Inl (reply 500 (ErrorBody (''Failed to process question: '' @ message error))
                      (flight_calls f) st)
           | Inr results \<Rightarrow>
               let context = assembleContext results
               in if context \<noteq> []
                  then Inr (f\<lparr>flight_stage := Generating context,
                              flight_calls := flight_calls f
                                @ snd (generateAnswer (flight_env f) (flight_question f) context)\<rparr>)
                  else Inl (finish f ''I couldn't find the answer in the document.'' st))
      | Generating context \<Rightarrow>
          Inl (finish f (fst (generateAnswer (flight_env f) (flight_question f) context)) st))"

text \<open>
  The server: the registry, the requests in flight by their number of arrival, the
  bodies received so far, and the responses sent, in the order in which they were sent.
\<close>

record server =
  registry :: store
  pending :: "nat \<rightharpoonup> in_flight"
  received :: "ask_body list"
  sent :: "(nat \<times> ask_body \<times> outcome) list"

definition idle :: "store \<Rightarrow> server" where
  "idle st = \<lparr>registry = st, pending = Map.empty, received = [], sent = []\<rparr>"

text \<open>
  What the event loop does next: a request arrives, or the request that arrived as number
  \<open>i\<close> goes on from its await. The collaborators answer a request as its \<open>collab\<close> says.
\<close>

datatype event = Submit collab ask_body | Resume nat

fun step :: "event \<Rightarrow> server \<Rightarrow> server" where
  "step (Submit env req) sv =
     (case ask_submit env req (registry sv) of
        Inl out \<Rightarrow>
          sv\<lparr>received := received sv @ [req],
             sent := sent sv @ [(length (received sv), req, out)]\<rparr>
      | Inr f \<Rightarrow>
          sv\<lparr>pending := (pending sv)(length (received sv) \<mapsto> f),
             received := received sv @ [req]\<rparr>)"
| "step (Resume i) sv =
     (case pending sv i of
        None \<Rightarrow> sv
      | Some f \<Rightarrow>
          (case ask_resume f (registry sv) of
             Inr f' \<Rightarrow> sv\<lparr>pending := (pending sv)(i \<mapsto> f')\<rparr>
           | Inl out \<Rightarrow>
               sv\<lparr>registry := sessionStore out,
                  pending := (pending sv)(i := None),
                  sent := sent sv @ [(i, flight_request f, out)]\<rparr>))"

fun run_events :: "event list \<Rightarrow> server \<Rightarrow> server" where
  "run_events [] sv = sv"
| "run_events (e # es) sv = run_events es (step e sv)"

text \<open>The bodies of the requests of a run, in the order of their arrival.\<close>

fun submissions :: "event list \<Rightarrow> ask_body list" where
  "submissions [] = []"
| "submissions (Submit env req # es) = req # submissions es"
| "submissions (Resume i # es) = submissions es"

text \<open>
  Requests handled one after the other: each arrives and is taken through its five awaits
  before the next arrives. \<open>n\<close> is the number of requests that arrived before.
\<close>

fun one_by_one :: "nat \<Rightarrow> (collab \<times> ask_body) list \<Rightarrow> event list" where
  "one_by_one n [] = []"
| "one_by_one n ((env, req) # rest) =
     Submit env req # Resume n # Resume n # Resume n # Resume n # Resume n
       # one_by_one (Suc n) rest"

text \<open>
  A request taken through \<open>k\<close> of its awaits with nothing else running in between; it
  stops at the response.
\<close>

fun resume_times :: "nat \<Rightarrow> in_flight \<Rightarrow> store \<Rightarrow> outcome + in_flight" where
  "resume_times 0 f st = Inr f"
| "resume_times (Suc k) f st =
     (case ask_resume f st of
        Inl out \<Rightarrow> Inl out
      | Inr f' \<Rightarrow> resume_times k f' st)"

text \<open>
  What holds of the server at every moment: a request in flight carries the body that
  arrived under its number and the question and session read from that body, and a
  response that was sent belongs to the body that arrived under its number; a 200 carries
  an answer to a question.
\<close>

definition consistent :: "server \<Rightarrow> bool" where
  "consistent sv \<longleftrightarrow>
     (\<forall>i f. pending sv i = Some f \<longrightarrow>
        i < length (received sv) \<and> received sv ! i = flight_request f
        \<and> question (flight_request f) = Some (flight_question f)
        \<and> sessionId (flight_request f) = Some (flight_session f))
     \<and> (\<forall>(i, req, out) \<in> set (sent sv).
          i < length (received sv) \<and> received sv ! i = req
          \<and> (status (response out) = 200 \<longrightarrow>
                (\<exists>q a. question req = Some q \<and> body (response out) = AnswerBody a)))"

text \<open>The question and answer of a request to session \<open>sid\<close> that was answered with 200.\<close>

fun answered :: "string \<Rightarrow> ask_body \<Rightarrow> outcome \<Rightarrow> (string \<times> string) list" where
  "answered sid req out =
     (case (question req, sessionId req, body (response out)) of
        (Some q, Some sid', AnswerBody a) \<Rightarrow>
          (if sid' = sid \<and> status (response out) = 200 then [(q, a)] else [])
      | _ \<Rightarrow> [])"

text \<open>The answered questions of a session, in the order in which the answers were sent.\<close>

definition exchanges :: "string \<Rightarrow> (nat \<times> ask_body \<times> outcome) list \<Rightarrow> (string \<times> string) list" where
  "exchanges sid responses = concat (map (\<lambda>(i, req, out). answered sid req out) responses)"

section \<open>The /upload handler\<close>

text \<open>
  The collaborators of an upload: the clock (\<^verbatim>\<open>Date.now().toString()\<close>), the PDF loader,
  the text splitter, \<^verbatim>\<open>PineconeStore.fromDocuments\<close> (with the embeddings client and the
  index handle of lines 79 to 84) and \<^verbatim>\<open>describeIndexStats\<close>.
\<close>

record upload_collab =
  now :: string
  load :: "string \<Rightarrow> js_error + document list"
  splitDocuments :: "document list \<Rightarrow> js_error + document list"
  fromDocuments :: "document list \<Rightarrow> string \<Rightarrow> js_error + unit"
  describeIndexStats :: "js_error + string"

text \<open>Lines 54 to 113; \<open>file\<close> is \<^verbatim>\<open>req.file\<close>, \<open>None\<close> when no file came, else its path.\<close>

definition upload :: "upload_collab \<Rightarrow> string option \<Rightarrow> store \<Rightarrow> response \<times> store" where
  "upload env file st =
     (case file of
        None \<Rightarrow> (\<lparr>status = 400, body = ErrorBody ''No file uploaded''\<rparr>, st)
      | Some pdfPath \<Rightarrow>
          let sid = now env;
              ns = ''pdf-'' @ sid
          in (case load env pdfPath of
                Inl error \<Rightarrow>
                  (\<lparr>status = 500, body = ErrorBody (''Failed to process PDF: '' @ message error)\<rparr>, st)
              | Inr rawDocs \<Rightarrow>
                  (case splitDocuments env rawDocs of
                     Inl error \<Rightarrow>
                       (\<lparr>status = 500,
                         body = ErrorBody (''Failed to process PDF: '' @ message error)\<rparr>, st)
                   | Inr chunkedDocs \<Rightarrow>
                       (case fromDocuments env chunkedDocs ns of
                          Inl error \<Rightarrow>
                            (\<lparr>status = 500,
                              body = ErrorBody (''Failed to process PDF: '' @ message error)\<rparr>, st)
                        | Inr indexed \<Rightarrow>
                            let st' = st(sid \<mapsto> \<lparr>namespace = ns, history = []\<rparr>)
                            in (case describeIndexStats env of
                                  Inl error \<Rightarrow>
                                    (\<lparr>status = 500,
                                      body = ErrorBody
                                        (''Failed to process PDF: '' @ message error)\<rparr>, st')
                                | Inr stats \<Rightarrow>
                                    (\<lparr>status = 200,
                                      body = UploadBody ''PDF processed successfully'' sid\<rparr>,
                                     st'))))))"

section \<open>Concrete scenarios\<close>

text \<open>
  One uploaded document, a question about it, and collaborators that all answer. The top
  results score 0.9, 0.7 (a blank chunk), exactly 0.5 and 0.3.
\<close>

definition demoResults :: "(document \<times> score) list" where
  "demoResults =
     [(\<lparr>pageContent = ''Warranty lasts two years.''\<rparr>, 0.9),
      (\<lparr>pageContent = ''   ''\<rparr>, 0.7),
      (\<lparr>pageContent = ''Returns within 30 days.''\<rparr>, 0.5),
      (\<lparr>pageContent = ''Shipping is free.''\<rparr>, 0.3)]"

definition demoCollab :: collab where
  "demoCollab =
     \<lparr>llm_rewrite = (\<lambda>contents. Inr ''How long is the warranty?''),
      embedQuery = (\<lambda>query. Inr [0.1, 0.2]),
      fromExistingIndex = (\<lambda>ns. Inr ()),
      similaritySearchVectorWithScore = (\<lambda>ns queryVector k. Inr demoResults),
      llm_generate = (\<lambda>p. Inr ''Two years.'')\<rparr>"

definition demoStore :: store where
  "demoStore = [''1700000000000'' \<mapsto> \<lparr>namespace = ''pdf-1700000000000'', history = []\<rparr>]"

definition demoAsk :: ask_body where
  "demoAsk = \<lparr>question = Some ''How long?'', sessionId = Some ''1700000000000''\<rparr>"

text \<open>The registry once the question has been answered once.\<close>

definition demoStoreAsked :: store where
  "demoStoreAsked =
     [''1700000000000'' \<mapsto>
        \<lparr>namespace = ''pdf-1700000000000'',
         history = [userTurn ''How long?'', modelTurn ''Two years.'']\<rparr>]"

text \<open>Collaborators of which one throws.\<close>

definition rewriteDown :: collab where
  "rewriteDown = demoCollab\<lparr>llm_rewrite := (\<lambda>contents. Inl (Error ''503 overloaded''))\<rparr>"

definition embedDown :: collab where
  "embedDown = demoCollab\<lparr>embedQuery := (\<lambda>query. Inl (Error ''quota exceeded''))\<rparr>"

definition searchDown :: collab where
  "searchDown =
     demoCollab\<lparr>similaritySearchVectorWithScore :=
       (\<lambda>ns queryVector k. Inl (Error ''index unavailable''))\<rparr>"

definition rewriteAndEmbedDown :: collab where
  "rewriteAndEmbedDown = rewriteDown\<lparr>embedQuery := (\<lambda>query. Inl (Error ''quota exceeded''))\<rparr>"

definition generateDown :: collab where
  "generateDown = demoCollab\<lparr>llm_generate := (\<lambda>p. Inl (Error ''timeout''))\<rparr>"

definition lowScores :: collab where
  "lowScores =
     demoCollab\<lparr>similaritySearchVectorWithScore :=
       (\<lambda>ns queryVector k.
          Inr [(\<lparr>pageContent = ''Shipping is free.''\<rparr>, 0.3),
               (\<lparr>pageContent = ''Thank you.''\<rparr>, 0.1)])\<rparr>"

definition hedging :: collab where
  \<open>hedging = demoCollab\<lparr>llm_generate := (\<lambda>p. Inr ''Sorry, I DON'T KNOW that.'')\<rparr>\<close>

text \<open>An upload whose indexing succeeds and whose statistics call throws.\<close>

definition statsDown :: upload_collab where
  "statsDown =
     \<lparr>now = ''1700000000000'',
      load = (\<lambda>pdfPath. Inr [\<lparr>pageContent = ''Warranty lasts two years.''\<rparr>]),
      splitDocuments = (\<lambda>rawDocs. Inr rawDocs),
      fromDocuments = (\<lambda>chunkedDocs ns. Inr ()),
      describeIndexStats = Inl (Error ''socket hang up'')\<rparr>"

text \<open>Three questions in a row: answered, failing at the embedding, answered by the refusal.\<close>

definition demoRun :: "event list" where
  "demoRun = one_by_one 0 [(demoCollab, demoAsk), (embedDown, demoAsk), (lowScores, demoAsk)]"

text \<open>
  Two questions to the same fresh session that overlap: the second arrives while the
  first waits at line 134, and is taken through all its awaits before the first goes on.
\<close>

definition otherAsk :: ask_body where
  "otherAsk = \<lparr>question = Some ''Is shipping free?'', sessionId = Some ''1700000000000''\<rparr>"

definition otherCollab :: collab where
  "otherCollab = demoCollab\<lparr>llm_generate := (\<lambda>p. Inr ''Yes.'')\<rparr>"

definition overlapping :: "event list" where
  "overlapping =
     [Submit demoCollab demoAsk, Submit otherCollab otherAsk,
      Resume 1, Resume 1, Resume 1, Resume 1, Resume 1,
      Resume 0, Resume 0, Resume 0, Resume 0, Resume 0]"

section \<open>Strings: substring search, trimming, joining\<close>

lemma str_includes_iff: "str_includes s p \<longleftrightarrow> (\<exists>before after. s = before @ p @ after)"
proof (induction s)
  case Nil
  then show ?case by auto
next
  case (Cons c cs)
  show ?case
  proof
    assume "str_includes (c # cs) p"
    then consider "prefix p (c # cs)" | "str_includes cs p" by auto
    then show "\<exists>before after. c # cs = before @ p @ after"
    proof cases
      case 1
      then obtain after where "c # cs = p @ after" by (auto simp: prefix_def)
      then have "c # cs = [] @ p @ after" by simp
      then show ?thesis by blast
    next
      case 2
      with Cons.IH obtain before after where "cs = before @ p @ after" by blast
      then have "c # cs = (c # before) @ p @ after" by simp
      then show ?thesis by blast
    qed
  next
    assume "\<exists>before after. c # cs = before @ p @ after"
    then obtain before after where eq: "c # cs = before @ p @ after" by blast
    show "str_includes (c # cs) p"
    proof (cases before)
      case Nil
      with eq have "prefix p (c # cs)" by (simp add: prefix_def)
      then show ?thesis by simp
    next
      case (Cons b bs)
      with eq have "cs = bs @ p @ after" by simp
      with Cons.IH have "str_includes cs p" by blast
      then show ?thesis by simp
    qed
  qed
qed

lemma str_includes_lower:
  "str_includes (toLowerCase t) (toLowerCase p) \<longleftrightarrow> containsIgnoringCase t p"
proof
  assume "str_includes (toLowerCase t) (toLowerCase p)"
  then obtain b a where "map lowerChar t = b @ map lowerChar p @ a"
    by (auto simp: str_includes_iff toLowerCase_def)
  then obtain t1 t23 where t: "t = t1 @ t23" and "map lowerChar t23 = map lowerChar p @ a"
    by (metis map_eq_append_conv)
  then obtain t2 t3 where "t23 = t2 @ t3" and "map lowerChar t2 = map lowerChar p"
    by (metis map_eq_append_conv)
  with t show "containsIgnoringCase t p"
    unfolding containsIgnoringCase_def toLowerCase_def by blast
next
  assume "containsIgnoringCase t p"
  then obtain b m a where "t = b @ m @ a" and "toLowerCase m = toLowerCase p"
    unfolding containsIgnoringCase_def by blast
  then have "toLowerCase t = toLowerCase b @ toLowerCase p @ toLowerCase a"
    by (simp add: toLowerCase_def)
  then show "str_includes (toLowerCase t) (toLowerCase p)"
    unfolding str_includes_iff by blast
qed

lemma phrases_lower:
  \<open>toLowerCase ''couldn't find'' = ''couldn't find''\<close>
  \<open>toLowerCase ''don't know'' = ''don't know''\<close>
  by code_simp+


section \<open>The relevance filter\<close>

lemma relevantResults_spec: "relevantResults results = spec_survivors results"
  unfolding relevantResults_def spec_survivors_def similarityThreshold_def
  by (rule filter_cong) (auto simp: not_less)

lemma trim_Nil: "trim [] = []"
  by (simp add: trim_def)

lemma join_eq_Nil:
  assumes "\<forall>x\<in>set xs. x \<noteq> []"
  shows "join sep xs = [] \<longleftrightarrow> xs = []"
  using assms by (cases "(sep, xs)" rule: join.cases) auto

lemma assembleContext_spec: "assembleContext results = spec_context results"
proof -
  have texts: "[pageContent (fst r). r \<leftarrow> rs, trim (pageContent (fst r)) \<noteq> []]
        = filter (\<lambda>text. length (trim text) > 0) (map (\<lambda>(doc, _). pageContent doc) rs)"
    for rs :: "(document \<times> score) list"
    by (induction rs) auto
  have "spec_context results
          = join separator
              (filter (\<lambda>text. length (trim text) > 0)
                 (map (\<lambda>(doc, _). pageContent doc) (relevantResults results)))"
    unfolding spec_context_def separator_def relevantResults_spec by (simp only: texts)
  then show ?thesis
    unfolding assembleContext_def by (cases "relevantResults results") simp_all
qed

lemma assembleContext_empty_iff:
  "assembleContext results = [] \<longleftrightarrow>
     (\<forall>r\<in>set results. \<not> snd r < 0.5 \<longrightarrow> trim (pageContent (fst r)) = [])"
proof -
  let ?texts = "filter (\<lambda>text. length (trim text) > 0)
                  (map (\<lambda>(doc, _). pageContent doc) (relevantResults results))"
  have nonempty: "\<forall>x\<in>set ?texts. x \<noteq> []"
    by (auto simp: trim_Nil)
  have "assembleContext results = [] \<longleftrightarrow> ?texts = []"
    unfolding assembleContext_def using join_eq_Nil [OF nonempty] by auto
  also have "\<dots> \<longleftrightarrow> (\<forall>r\<in>set results. \<not> snd r < 0.5 \<longrightarrow> trim (pageContent (fst r)) = [])"
    unfolding relevantResults_spec spec_survivors_def
    by (force simp: filter_empty_conv)
  finally show ?thesis .
qed

text \<open>
  Claim C7. The relevance filter keeps, in the retrieved order, exactly the results that do
  not score strictly below 0.5 (a score of exactly 0.5 survives), and the context is the
  texts of the survivors, without those that are empty once trimmed, joined with the
  separator of two newlines, three dashes and two newlines.
\<close>

theorem relevance_filter_refines_spec:
  "relevantResults results = spec_survivors results
   \<and> assembleContext results = spec_context results"
  by (simp add: relevantResults_spec assembleContext_spec)

theorem relevance_filter_refines_spec_witness:
  "assembleContext demoResults
     = ''Warranty lasts two years.'' @ separator @ ''Returns within 30 days.''"
proof -
  have "spec_context demoResults
          = ''Warranty lasts two years.'' @ separator @ ''Returns within 30 days.''"
    by code_simp
  with relevance_filter_refines_spec [of demoResults] show ?thesis by simp
qed

section \<open>The query rewriter\<close>

text \<open>
  Claim C5. With an empty history the query rewriter returns the question unchanged and
  calls no language model.
\<close>

theorem transformQuery_empty_history: "transformQuery env q [] = (q, [])"
  by (simp add: transformQuery_def)

theorem transformQuery_empty_history_witness:
  "transformQuery demoCollab ''How long?'' [] = (''How long?'', [])"
  by (rule transformQuery_empty_history)

section \<open>The answer generator\<close>

text \<open>
  Claim C9. Whatever text the generation collaborator returns, the answer generator gives
  the canonical refusal when the text contains one of the inability phrases as a
  substring, letter case ignored, and gives the text unchanged otherwise.
\<close>

theorem generateAnswer_normalises:
  assumes "llm_generate env (prompt q ctx) = Inr answer"
  shows "fst (generateAnswer env q ctx)
           = (if \<exists>phrase\<in>set inabilityPhrases. containsIgnoringCase answer phrase
              then refusal else answer)"
proof -
  have "str_includes (toLowerCase answer) ''couldn't find''
          \<longleftrightarrow> containsIgnoringCase answer ''couldn't find''"
    using str_includes_lower [of answer "''couldn't find''"] by (simp only: phrases_lower)
  moreover have "str_includes (toLowerCase answer) ''don't know''
          \<longleftrightarrow> containsIgnoringCase answer ''don't know''"
    using str_includes_lower [of answer "''don't know''"] by (simp only: phrases_lower)
  ultimately show ?thesis
    using assms by (simp add: generateAnswer_def inabilityPhrases_def refusal_def)
qed

theorem generateAnswer_normalises_witness:
  \<open>llm_generate hedging (prompt ''How long?'' ''Warranty lasts two years.'')
     = Inr ''Sorry, I DON'T KNOW that.''
   \<and> fst (generateAnswer hedging ''How long?'' ''Warranty lasts two years.'') = refusal\<close>
proof -
  have call: \<open>llm_generate hedging (prompt ''How long?'' ''Warranty lasts two years.'')
                = Inr ''Sorry, I DON'T KNOW that.''\<close>
    by (simp add: hedging_def)
  have \<open>str_includes (toLowerCase ''Sorry, I DON'T KNOW that.'') (toLowerCase ''don't know'')\<close>
    by code_simp
  then have \<open>containsIgnoringCase ''Sorry, I DON'T KNOW that.'' ''don't know''\<close>
    by (simp only: str_includes_lower)
  then have \<open>\<exists>phrase\<in>set inabilityPhrases.
               containsIgnoringCase ''Sorry, I DON'T KNOW that.'' phrase\<close>
    by (simp add: inabilityPhrases_def)
  with generateAnswer_normalises [OF call] call show ?thesis by simp
qed

section \<open>The paths through the /ask handler\<close>

lemma ask_missing:
  assumes "question req = None \<or> question req = Some [] \<or> sessionId req = None \<or> sessionId req = Some []"
  shows "ask env req st = reply 400 (ErrorBody ''Missing question or session ID'') [] st"
  using assms by (auto simp: ask_def split: option.splits)

lemma ask_unknown_session:
  assumes "question req = Some q" "q \<noteq> []" "sessionId req = Some sid" "sid \<noteq> []"
    and "st sid = None"
  shows "ask env req st = reply 400 (ErrorBody ''Invalid session ID'') [] st"
  using assms by (simp add: ask_def)

lemma ask_retrieval_failed:
  assumes "question req = Some q" "q \<noteq> []" "sessionId req = Some sid" "sid \<noteq> []"
    and "st sid = Some s"
    and "transformQuery env q (history s) = (tq, c1)"
    and "retrieve env tq (namespace s) = (Inl e, c2)"
  shows "ask env req st
           = reply 500 (ErrorBody (''Failed to process question: '' @ message e)) (c1 @ c2) st"
  using assms by (simp add: ask_def)

lemma ask_answered:
  assumes "question req = Some q" "q \<noteq> []" "sessionId req = Some sid" "sid \<noteq> []"
    and "st sid = Some s"
    and "transformQuery env q (history s) = (tq, c1)"
    and "retrieve env tq (namespace s) = (Inr results, c2)"
    and "(if assembleContext results \<noteq> [] then generateAnswer env q (assembleContext results)
          else (refusal, [])) = (a, c3)"
  shows "ask env req st
           = reply 200 (AnswerBody a) (c1 @ c2 @ c3)
               (st(sid \<mapsto> s\<lparr>history := history s @ [userTurn q, modelTurn a]\<rparr>))"
proof (cases "assembleContext results = []")
  case True
  with assms show ?thesis
    by (simp add: ask_def Let_def refusal_def userTurn_def modelTurn_def)
next
  case False
  with assms show ?thesis
    by (simp add: ask_def Let_def userTurn_def modelTurn_def)
qed

lemma transformQuery_calls:
  "\<forall>c\<in>set (snd (transformQuery env q h)). isRewriteCall c"
  by (simp add: transformQuery_def Let_def split: sum.splits)

lemma retrieve_calls:
  "\<forall>c\<in>set (snd (retrieve env tq ns)). \<not> isGenerateCall c \<and> \<not> isRewriteCall c"
  by (simp add: retrieve_def split: sum.splits)

lemma retrieve_first_call:
  "\<exists>cs. snd (retrieve env tq ns) = EmbedCall tq # cs"
  by (simp add: retrieve_def split: sum.splits)

lemma ask_valid_cases:
  assumes "question req = Some q" "q \<noteq> []" "sessionId req = Some sid" "sid \<noteq> []"
    and "st sid = Some s"
  obtains (failed) e c2 where
      "retrieve env (fst (transformQuery env q (history s))) (namespace s) = (Inl e, c2)"
      "ask env req st
         = reply 500 (ErrorBody (''Failed to process question: '' @ message e))
             (snd (transformQuery env q (history s)) @ c2) st"
  | (answered) results c2 a c3 where
      "retrieve env (fst (transformQuery env q (history s))) (namespace s) = (Inr results, c2)"
      "(if assembleContext results \<noteq> [] then generateAnswer env q (assembleContext results)
        else (refusal, [])) = (a, c3)"
      "ask env req st
         = reply 200 (AnswerBody a) (snd (transformQuery env q (history s)) @ c2 @ c3)
             (st(sid \<mapsto> s\<lparr>history := history s @ [userTurn q, modelTurn a]\<rparr>))"
proof -
  obtain tq c1 where tq: "transformQuery env q (history s) = (tq, c1)"
    by (cases "transformQuery env q (history s)")
  obtain found c2 where r: "retrieve env tq (namespace s) = (found, c2)"
    by (cases "retrieve env tq (namespace s)")
  show thesis
  proof (cases found)
    case (Inl e)
    with assms tq r
    have "ask env req st
            = reply 500 (ErrorBody (''Failed to process question: '' @ message e)) (c1 @ c2) st"
      by (simp add: ask_retrieval_failed)
    with failed [of e c2] tq r Inl show ?thesis by simp
  next
    case (Inr results)
    obtain a c3 where g: "(if assembleContext results \<noteq> []
        then generateAnswer env q (assembleContext results) else (refusal, [])) = (a, c3)"
      by (cases "if assembleContext results \<noteq> []
        then generateAnswer env q (assembleContext results) else (refusal, [])")
    from assms tq r [unfolded Inr] g
    have "ask env req st
           = reply 200 (AnswerBody a) (c1 @ c2 @ c3)
               (st(sid \<mapsto> s\<lparr>history := history s @ [userTurn q, modelTurn a]\<rparr>))"
      by (rule ask_answered)
    with answered [of results c2 a c3] tq r Inr g show ?thesis by simp
  qed
qed

lemma generateAnswer_failure:
  "llm_generate env (prompt q ctx) = Inl e \<Longrightarrow> fst (generateAnswer env q ctx) = refusal"
  by (simp add: generateAnswer_def refusal_def)

lemma generateAnswer_calls: "snd (generateAnswer env q ctx) = [GenerateCall (prompt q ctx)]"
  by (simp add: generateAnswer_def split: sum.splits)

lemma ask_calls_prefix:
  assumes "question req = Some q" "q \<noteq> []" "sessionId req = Some sid" "sid \<noteq> []"
    and "st sid = Some s"
  shows "\<exists>cs. calls (ask env req st)
           = snd (transformQuery env q (history s))
               @ EmbedCall (fst (transformQuery env q (history s))) # cs"
  using assms
proof (cases rule: ask_valid_cases [where env = env])
  case (failed e c2)
  with retrieve_first_call [of env "fst (transformQuery env q (history s))" "namespace s"]
  show ?thesis by (auto simp: reply_def)
next
  case (answered results c2 a c3)
  with retrieve_first_call [of env "fst (transformQuery env q (history s))" "namespace s"]
  show ?thesis by (auto simp: reply_def)
qed

lemma ask_status_iff:
  assumes "question req = Some q" "q \<noteq> []" "sessionId req = Some sid" "sid \<noteq> []"
    and "st sid = Some s"
  shows "(status (response (ask env req st)) = 200
            \<longleftrightarrow> (\<exists>results. fst (retrieve env (fst (transformQuery env q (history s)))
                                  (namespace s)) = Inr results))
       \<and> (status (response (ask env req st)) = 500
            \<longleftrightarrow> (\<exists>e. fst (retrieve env (fst (transformQuery env q (history s)))
                            (namespace s)) = Inl e))"
  using assms
  by (cases rule: ask_valid_cases [where env = env]) (auto simp: reply_def)

lemma ask_fresh_calls:
  assumes "question req = Some q" "q \<noteq> []" "sessionId req = Some sid" "sid \<noteq> []"
    and "st sid = Some s" and "history s = []"
  shows "(\<exists>cs. calls (ask env req st) = EmbedCall q # cs)
       \<and> (\<forall>c\<in>set (calls (ask env req st)). \<not> isRewriteCall c)"
proof -
  have tq: "transformQuery env q (history s) = (q, [])"
    using assms(6) by (simp add: transformQuery_def)
  have first: "\<exists>cs. calls (ask env req st) = EmbedCall q # cs"
    using ask_calls_prefix [OF assms(1-4), of st s env] assms(5) tq by simp
  have rest: "\<forall>c\<in>set (calls (ask env req st)). \<not> isRewriteCall c"
    using assms(1-5)
  proof (cases rule: ask_valid_cases [where env = env])
    case (failed e c2)
    with retrieve_calls [of env q "namespace s"] tq show ?thesis
      by (auto simp: reply_def)
  next
    case (answered results c2 a c3)
    have "c3 = [] \<or> c3 = [GenerateCall (prompt q (assembleContext results))]"
      using answered(2) generateAnswer_calls [of env q "assembleContext results"]
      by (cases "assembleContext results = []") auto
    with answered retrieve_calls [of env q "namespace s"] tq show ?thesis
      by (auto simp: reply_def)
  qed
  from first rest show ?thesis by simp
qed

lemma ask_200_answer:
  assumes "status (response (ask env req st)) = 200"
  shows "\<exists>q sid a. question req = Some q \<and> sessionId req = Some sid
           \<and> body (response (ask env req st)) = AnswerBody a"
  using assms
  by (auto simp: ask_def reply_def Let_def split: option.splits sum.splits prod.splits if_splits)

section \<open>Relevance gate\<close>

text \<open>
  Claim C1. On a request that passes validation and whose retrieval returns, if every
  similarity score is strictly below 0.5, or every chunk that survives the threshold is
  empty once trimmed, the response is 200 with the canonical refusal as the answer and the
  generation collaborator is not called.
\<close>

theorem ask_relevance_gate:
  assumes "question req = Some q" "q \<noteq> []" "sessionId req = Some sid" "sid \<noteq> []"
    and "st sid = Some s"
    and "fst (retrieve env (fst (transformQuery env q (history s))) (namespace s)) = Inr results"
    and "(\<forall>r\<in>set results. snd r < 0.5)
         \<or> (\<forall>r\<in>set results. \<not> snd r < 0.5 \<longrightarrow> trim (pageContent (fst r)) = [])"
  shows "response (ask env req st) = \<lparr>status = 200, body = AnswerBody refusal\<rparr>
         \<and> (\<forall>c\<in>set (calls (ask env req st)). \<not> isGenerateCall c)"
proof -
  obtain tq c1 where tq: "transformQuery env q (history s) = (tq, c1)"
    by (cases "transformQuery env q (history s)")
  obtain c2 where found: "retrieve env tq (namespace s) = (Inr results, c2)"
    using assms(6) tq by (cases "retrieve env tq (namespace s)") simp
  have "assembleContext results = []"
    using assms(7) unfolding assembleContext_empty_iff by blast
  then have "(if assembleContext results \<noteq> []
              then generateAnswer env q (assembleContext results) else (refusal, []))
             = (refusal, [])"
    by simp
  with assms(1-5) tq found
  have out: "ask env req st
          = reply 200 (AnswerBody refusal) (c1 @ c2 @ [])
              (st(sid \<mapsto> s\<lparr>history := history s @ [userTurn q, modelTurn refusal]\<rparr>))"
    by (rule ask_answered)
  have "\<forall>c\<in>set c1. isRewriteCall c"
    using transformQuery_calls [of env q "history s"] tq by simp
  then have c1: "\<forall>c\<in>set c1. \<not> isGenerateCall c"
    by (metis isGenerateCall.elims(2) isRewriteCall.simps(5))
  have c2: "\<forall>c\<in>set c2. \<not> isGenerateCall c"
    using retrieve_calls [of env tq "namespace s"] found by simp
  show ?thesis
    unfolding out using c1 c2 by (auto simp: reply_def)
qed

theorem ask_relevance_gate_witness:
  "response (ask lowScores demoAsk demoStore) = \<lparr>status = 200, body = AnswerBody refusal\<rparr>
   \<and> filter isGenerateCall (calls (ask lowScores demoAsk demoStore)) = []"
proof -
  let ?s = "\<lparr>namespace = ''pdf-1700000000000'', history = []\<rparr>"
  let ?results = "[(\<lparr>pageContent = ''Shipping is free.''\<rparr>, 0.3 :: score),
                   (\<lparr>pageContent = ''Thank you.''\<rparr>, 0.1)]"
  have valid: "question demoAsk = Some ''How long?''" "''How long?'' \<noteq> []"
      "sessionId demoAsk = Some ''1700000000000''" "''1700000000000'' \<noteq> []"
      "demoStore ''1700000000000'' = Some ?s"
    by (simp_all add: demoAsk_def demoStore_def)
  have found: "fst (retrieve lowScores (fst (transformQuery lowScores ''How long?'' (history ?s)))
                 (namespace ?s)) = Inr ?results"
    by (simp add: retrieve_def transformQuery_def lowScores_def demoCollab_def)
  have low: "(\<forall>r\<in>set ?results. snd r < 0.5)
         \<or> (\<forall>r\<in>set ?results. \<not> snd r < 0.5 \<longrightarrow> trim (pageContent (fst r)) = [])"
    by simp
  have "response (ask lowScores demoAsk demoStore) = \<lparr>status = 200, body = AnswerBody refusal\<rparr>
        \<and> (\<forall>c\<in>set (calls (ask lowScores demoAsk demoStore)). \<not> isGenerateCall c)"
    by (rule ask_relevance_gate [OF valid(1,2,3,4) _ found low]) (rule valid(5))
  then show ?thesis by (simp add: filter_empty_conv)
qed

section \<open>Which failures /ask surfaces\<close>

text \<open>
  Claim C2, amended. On a request that passes validation, a failure of the rewriting or of
  the generation collaborator is not surfaced: whenever retrieval returns, the response is
  200, and its answer is the canonical refusal if the generation collaborator threw. A
  failure of the embedding call, of the vector store handle or of the similarity search
  is surfaced as 500 with the message of the error.
\<close>

theorem ask_failure_policy:
  assumes "question req = Some q" "q \<noteq> []" "sessionId req = Some sid" "sid \<noteq> []"
    and "st sid = Some s"
  shows "(\<forall>e. fst (retrieve env (fst (transformQuery env q (history s))) (namespace s)) = Inl e
            \<longrightarrow> response (ask env req st)
                  = \<lparr>status = 500,
                     body = ErrorBody (''Failed to process question: '' @ message e)\<rparr>)
       \<and> (\<forall>results.
            fst (retrieve env (fst (transformQuery env q (history s))) (namespace s)) = Inr results
            \<longrightarrow> status (response (ask env req st)) = 200
                \<and> ((\<exists>e. llm_generate env (prompt q (assembleContext results)) = Inl e)
                     \<longrightarrow> body (response (ask env req st)) = AnswerBody refusal))"
  using assms
proof (cases rule: ask_valid_cases [where env = env])
  case (failed e c2)
  then show ?thesis by (simp add: reply_def)
next
  case (answered results c2 a c3)
  have "a = refusal" if "llm_generate env (prompt q (assembleContext results)) = Inl e" for e
    using answered(2) generateAnswer_failure [OF that]
    by (cases "assembleContext results = []") auto
  with answered show ?thesis by (auto simp: reply_def)
qed

theorem ask_failure_policy_witness:
  "response (ask generateDown demoAsk demoStore) = \<lparr>status = 200, body = AnswerBody refusal\<rparr>"
proof -
  let ?s = "\<lparr>namespace = ''pdf-1700000000000'', history = []\<rparr>"
  have valid: "question demoAsk = Some ''How long?''" "''How long?'' \<noteq> []"
      "sessionId demoAsk = Some ''1700000000000''" "''1700000000000'' \<noteq> []"
      "demoStore ''1700000000000'' = Some ?s"
    by (simp_all add: demoAsk_def demoStore_def)
  have found: "fst (retrieve generateDown
                      (fst (transformQuery generateDown ''How long?'' (history ?s)))
                      (namespace ?s)) = Inr demoResults"
    by (simp add: retrieve_def transformQuery_def generateDown_def demoCollab_def)
  have down: "\<exists>e. llm_generate generateDown (prompt ''How long?'' (assembleContext demoResults))
                    = Inl e"
    by (simp add: generateDown_def)
  have "status (response (ask generateDown demoAsk demoStore)) = 200
        \<and> body (response (ask generateDown demoAsk demoStore)) = AnswerBody refusal"
    using ask_failure_policy [of demoAsk "''How long?''" "''1700000000000''" demoStore ?s generateDown]
      valid found down by blast
  then show ?thesis by (cases "response (ask generateDown demoAsk demoStore)") simp
qed

text \<open>
  A request that passes validation and whose similarity search throws is answered 500,
  not 200 with the refusal.
\<close>

theorem ask_search_failure_is_500:
  "response (ask searchDown demoAsk demoStore)
     = \<lparr>status = 500, body = ErrorBody ''Failed to process question: index unavailable''\<rparr>"
  by code_simp

section \<open>Failure of the rewriting collaborator\<close>

text \<open>
  Claim C6, amended. On a request that passes validation with a non-empty history, if the
  rewriting collaborator throws, the rewriter returns the original question, the embedding
  call of the retrieval stage receives that question, and the request returns 200 exactly
  when the retrieval collaborators succeed on it (500 when one of them throws).
\<close>

theorem rewrite_failure_falls_back:
  assumes "question req = Some q" "q \<noteq> []" "sessionId req = Some sid" "sid \<noteq> []"
    and "st sid = Some s"
    and "history s \<noteq> []"
    and "llm_rewrite env (history s @ [userTurn q]) = Inl e"
  shows "transformQuery env q (history s) = (q, [RewriteCall (history s @ [userTurn q])])
       \<and> (\<exists>cs. calls (ask env req st)
                   = RewriteCall (history s @ [userTurn q]) # EmbedCall q # cs)
       \<and> (status (response (ask env req st)) = 200
            \<longleftrightarrow> (\<exists>results. fst (retrieve env q (namespace s)) = Inr results))
       \<and> (status (response (ask env req st)) = 500
            \<longleftrightarrow> (\<exists>e'. fst (retrieve env q (namespace s)) = Inl e'))"
proof -
  have tq: "transformQuery env q (history s) = (q, [RewriteCall (history s @ [userTurn q])])"
    using assms(6,7) by (simp add: transformQuery_def userTurn_def)
  show ?thesis
    using tq ask_calls_prefix [OF assms(1-4), of st s env] ask_status_iff [OF assms(1-4), of st s env]
      assms(5)
    by simp
qed

theorem rewrite_failure_falls_back_witness:
  "transformQuery rewriteDown ''How long?'' [userTurn ''How long?'', modelTurn ''Two years.'']
     = (''How long?'',
        [RewriteCall [userTurn ''How long?'', modelTurn ''Two years.'', userTurn ''How long?'']])
   \<and> status (response (ask rewriteDown demoAsk demoStoreAsked)) = 200"
proof -
  let ?s = "\<lparr>namespace = ''pdf-1700000000000'',
             history = [userTurn ''How long?'', modelTurn ''Two years.'']\<rparr>"
  have valid: "question demoAsk = Some ''How long?''" "''How long?'' \<noteq> []"
      "sessionId demoAsk = Some ''1700000000000''" "''1700000000000'' \<noteq> []"
      "demoStoreAsked ''1700000000000'' = Some ?s" "history ?s \<noteq> []"
    by (simp_all add: demoAsk_def demoStoreAsked_def)
  have down: "llm_rewrite rewriteDown (history ?s @ [userTurn ''How long?''])
                = Inl (Error ''503 overloaded'')"
    by (simp add: rewriteDown_def)
  have found: "\<exists>results. fst (retrieve rewriteDown ''How long?'' (namespace ?s)) = Inr results"
    by (simp add: retrieve_def rewriteDown_def demoCollab_def)
  show ?thesis
    using rewrite_failure_falls_back [of demoAsk "''How long?''" "''1700000000000''"
        demoStoreAsked ?s rewriteDown "Error ''503 overloaded''"] valid down found
    by simp
qed

text \<open>
  With the rewriting collaborator and the embedding collaborator both down, the request
  returns 500.
\<close>

theorem ask_rewrite_and_embed_failure_is_500:
  "llm_rewrite rewriteAndEmbedDown
       [userTurn ''How long?'', modelTurn ''Two years.'', userTurn ''How long?'']
     = Inl (Error ''503 overloaded'')
   \<and> response (ask rewriteAndEmbedDown demoAsk demoStoreAsked)
     = \<lparr>status = 500, body = ErrorBody ''Failed to process question: quota exceeded''\<rparr>"
  by code_simp

section \<open>Repeating a question in a fresh session\<close>

text \<open>
  Claim C8, amended. In a fresh session the first ask performs no rewriting and the
  retrieval path receives the unchanged question. Once that ask has been answered the
  history holds its two turns, so an identical second ask does call the rewriting
  collaborator, with those turns and the question, and the retrieval path receives the
  collaborator's text, or the unchanged question when that call throws. When the first
  ask was not answered, the second again performs no rewriting and the retrieval path
  receives the unchanged question.
\<close>

theorem repeated_question_rewriting:
  assumes "question req = Some q" "q \<noteq> []" "sessionId req = Some sid" "sid \<noteq> []"
    and "st sid = Some s" and "history s = []"
  shows "(\<exists>cs. calls (ask env1 req st) = EmbedCall q # cs)
       \<and> (\<forall>c\<in>set (calls (ask env1 req st)). \<not> isRewriteCall c)
       \<and> (\<forall>a. response (ask env1 req st) = \<lparr>status = 200, body = AnswerBody a\<rparr>
              \<longrightarrow> (\<exists>cs. calls (ask env2 req (sessionStore (ask env1 req st)))
                     = RewriteCall [userTurn q, modelTurn a, userTurn q]
                       # EmbedCall (case llm_rewrite env2 [userTurn q, modelTurn a, userTurn q] of
                                      Inr rewritten \<Rightarrow> rewritten
                                    | Inl error \<Rightarrow> q)
                       # cs))
       \<and> (status (response (ask env1 req st)) \<noteq> 200
            \<longrightarrow> (\<exists>cs. calls (ask env2 req (sessionStore (ask env1 req st))) = EmbedCall q # cs)
                \<and> (\<forall>c\<in>set (calls (ask env2 req (sessionStore (ask env1 req st)))).
                      \<not> isRewriteCall c))"
proof -
  note fresh = ask_fresh_calls [OF assms(1-4), of st s]
  from assms(1-5) show ?thesis
  proof (cases rule: ask_valid_cases [where env = env1])
    case (failed e c2)
    then have "sessionStore (ask env1 req st) = st" "status (response (ask env1 req st)) = 500"
      by (simp_all add: reply_def)
    with fresh [of env1] fresh [of env2] assms(5,6) show ?thesis by auto
  next
    case (answered results c2 a c3)
    let ?s' = "s\<lparr>history := history s @ [userTurn q, modelTurn a]\<rparr>"
    let ?st' = "sessionStore (ask env1 req st)"
    have resp: "response (ask env1 req st) = \<lparr>status = 200, body = AnswerBody a\<rparr>"
      and st': "?st' sid = Some ?s'"
      using answered(3) by (simp_all add: reply_def)
    have "transformQuery env2 q (history ?s')
            = (case llm_rewrite env2 [userTurn q, modelTurn a, userTurn q] of
                 Inr rewritten \<Rightarrow> rewritten | Inl error \<Rightarrow> q,
               [RewriteCall [userTurn q, modelTurn a, userTurn q]])"
      using assms(6) by (simp add: transformQuery_def userTurn_def split: sum.splits)
    with ask_calls_prefix [OF assms(1-4), of ?st' ?s' env2] st'
    have "\<exists>cs. calls (ask env2 req ?st')
                 = RewriteCall [userTurn q, modelTurn a, userTurn q]
                   # EmbedCall (case llm_rewrite env2 [userTurn q, modelTurn a, userTurn q] of
                                  Inr rewritten \<Rightarrow> rewritten | Inl error \<Rightarrow> q)
                   # cs"
      by simp
    with fresh [of env1] assms(5,6) resp show ?thesis by auto
  qed
qed

theorem repeated_question_rewriting_witness:
  "\<exists>cs. calls (ask demoCollab demoAsk (sessionStore (ask demoCollab demoAsk demoStore)))
          = RewriteCall [userTurn ''How long?'', modelTurn ''Two years.'', userTurn ''How long?'']
            # EmbedCall ''How long is the warranty?'' # cs"
proof -
  let ?s = "\<lparr>namespace = ''pdf-1700000000000'', history = []\<rparr>"
  have valid: "question demoAsk = Some ''How long?''" "''How long?'' \<noteq> []"
      "sessionId demoAsk = Some ''1700000000000''" "''1700000000000'' \<noteq> []"
      "demoStore ''1700000000000'' = Some ?s" "history ?s = []"
    by (simp_all add: demoAsk_def demoStore_def)
  have first: "response (ask demoCollab demoAsk demoStore)
                 = \<lparr>status = 200, body = AnswerBody ''Two years.''\<rparr>"
    by code_simp
  have rewritten: "llm_rewrite demoCollab
        [userTurn ''How long?'', modelTurn ''Two years.'', userTurn ''How long?'']
      = Inr ''How long is the warranty?''"
    by (simp add: demoCollab_def)
  show ?thesis
    using repeated_question_rewriting [of demoAsk "''How long?''" "''1700000000000''"
        demoStore ?s demoCollab demoCollab] valid first rewritten
    by simp
qed

text \<open>
  The second of two identical asks in a fresh session, with every collaborator answering,
  starts with a call of the rewriting collaborator and embeds the rewritten question.
\<close>

theorem second_ask_rewrites:
  "take 2 (calls (ask demoCollab demoAsk (sessionStore (ask demoCollab demoAsk demoStore))))
     = [RewriteCall [userTurn ''How long?'', modelTurn ''Two years.'', userTurn ''How long?''],
        EmbedCall ''How long is the warranty?'']"
  by code_simp

section \<open>History of a session\<close>

lemma ask_submit_rejected:
  assumes "ask_submit env req st = Inl out"
  shows "status (response out) = 400 \<and> sessionStore out = st \<and> out = ask env req st"
  using assms
  by (auto simp: ask_submit_def ask_def reply_def Let_def split: option.splits prod.splits if_splits)

lemma ask_submit_accepted:
  assumes "ask_submit env req st = Inr f"
  shows "flight_request f = req \<and> question req = Some (flight_question f)
         \<and> sessionId req = Some (flight_session f)"
  using assms
  by (auto simp: ask_submit_def Let_def split: option.splits prod.splits if_splits)

lemma ask_resume_suspended:
  assumes "ask_resume f st = Inr f'"
  shows "flight_request f' = flight_request f \<and> flight_question f' = flight_question f
         \<and> flight_session f' = flight_session f"
  using assms
  by (auto simp: ask_resume_def Let_def split: stage.splits sum.splits if_splits)

lemma ask_resume_responded:
  assumes "ask_resume f st = Inl out"
  shows "(status (response out) = 500 \<and> sessionStore out = st) \<or> (\<exists>a. out = finish f a st)"
  using assms
  by (auto simp: ask_resume_def reply_def Let_def split: stage.splits sum.splits if_splits)

lemma finish_history:
  assumes "question (flight_request f) = Some (flight_question f)"
    and "sessionId (flight_request f) = Some (flight_session f)"
    and "st sid = Some s"
  shows "\<exists>s'. sessionStore (finish f a st) sid = Some s' \<and> namespace s' = namespace s
           \<and> history s' = history s
               @ concat (map (\<lambda>(q, a). [userTurn q, modelTurn a])
                   (answered sid (flight_request f) (finish f a st)))"
  using assms
  by (auto simp: finish_def reply_def userTurn_def modelTurn_def split: option.splits)

lemma consistent_idle: "consistent (idle st)"
  by (simp add: consistent_def idle_def)

lemma finish_response: "response (finish f a st) = \<lparr>status = 200, body = AnswerBody a\<rparr>"
  by (simp add: finish_def reply_def)

lemma consistentI:
  assumes "\<And>i f. pending sv i = Some f \<Longrightarrow>
             i < length (received sv) \<and> received sv ! i = flight_request f
             \<and> question (flight_request f) = Some (flight_question f)
             \<and> sessionId (flight_request f) = Some (flight_session f)"
    and "\<And>i req out. (i, req, out) \<in> set (sent sv) \<Longrightarrow>
             i < length (received sv) \<and> received sv ! i = req
             \<and> (status (response out) = 200 \<longrightarrow>
                   (\<exists>q a. question req = Some q \<and> body (response out) = AnswerBody a))"
  shows "consistent sv"
  unfolding consistent_def using assms by blast

lemma consistent_pending:
  assumes "consistent sv" and "pending sv i = Some f"
  shows "i < length (received sv)" and "received sv ! i = flight_request f"
    and "question (flight_request f) = Some (flight_question f)"
    and "sessionId (flight_request f) = Some (flight_session f)"
  using assms unfolding consistent_def by blast+

lemma consistent_sent:
  assumes "consistent sv" and "(i, req, out) \<in> set (sent sv)"
  shows "i < length (received sv)" and "received sv ! i = req"
    and "status (response out) = 200 \<Longrightarrow>
           \<exists>q a. question req = Some q \<and> body (response out) = AnswerBody a"
  using assms unfolding consistent_def by blast+

lemma consistent_step:
  assumes "consistent sv"
  shows "consistent (step e sv)"
proof (cases e)
  case (Submit env req)
  let ?n = "length (received sv)"
  show ?thesis
  proof (cases "ask_submit env req (registry sv)")
    case (Inl out)
    from ask_submit_rejected [OF Inl] have rejected: "status (response out) = 400" by blast
    have st: "step e sv = sv\<lparr>received := received sv @ [req], sent := sent sv @ [(?n, req, out)]\<rparr>"
      unfolding Submit using Inl by simp
    show ?thesis
      unfolding st
    proof (rule consistentI)
      fix i f
      assume "pending (sv\<lparr>received := received sv @ [req],
                          sent := sent sv @ [(?n, req, out)]\<rparr>) i = Some f"
      then have "pending sv i = Some f" by simp
      from consistent_pending [OF assms this]
      show "i < length (received (sv\<lparr>received := received sv @ [req],
                                      sent := sent sv @ [(?n, req, out)]\<rparr>))
            \<and> received (sv\<lparr>received := received sv @ [req],
                             sent := sent sv @ [(?n, req, out)]\<rparr>) ! i = flight_request f
            \<and> question (flight_request f) = Some (flight_question f)
            \<and> sessionId (flight_request f) = Some (flight_session f)"
        by (simp add: nth_append)
    next
      fix i r out'
      assume "(i, r, out') \<in> set (sent (sv\<lparr>received := received sv @ [req],
                                              sent := sent sv @ [(?n, req, out)]\<rparr>))"
      then consider "(i, r, out') \<in> set (sent sv)" | "i = ?n" "r = req" "out' = out"
        by auto
      then show "i < length (received (sv\<lparr>received := received sv @ [req],
                                           sent := sent sv @ [(?n, req, out)]\<rparr>))
            \<and> received (sv\<lparr>received := received sv @ [req],
                             sent := sent sv @ [(?n, req, out)]\<rparr>) ! i = r
            \<and> (status (response out') = 200 \<longrightarrow>
                  (\<exists>q a. question r = Some q \<and> body (response out') = AnswerBody a))"
      proof cases
        case 1
        from consistent_sent [OF assms 1] show ?thesis by (simp add: nth_append)
      next
        case 2
        with rejected show ?thesis by simp
      qed
    qed
  next
    case (Inr f0)
    note accepted = ask_submit_accepted [OF Inr]
    have st: "step e sv = sv\<lparr>pending := (pending sv)(?n \<mapsto> f0),
                               received := received sv @ [req]\<rparr>"
      unfolding Submit using Inr by simp
    show ?thesis
      unfolding st
    proof (rule consistentI)
      fix i f
      assume "pending (sv\<lparr>pending := (pending sv)(?n \<mapsto> f0),
                          received := received sv @ [req]\<rparr>) i = Some f"
      then consider "i = ?n" "f = f0" | "i \<noteq> ?n" "pending sv i = Some f"
        by (cases "i = ?n") auto
      then show "i < length (received (sv\<lparr>pending := (pending sv)(?n \<mapsto> f0),
                                           received := received sv @ [req]\<rparr>))
            \<and> received (sv\<lparr>pending := (pending sv)(?n \<mapsto> f0),
                             received := received sv @ [req]\<rparr>) ! i = flight_request f
            \<and> question (flight_request f) = Some (flight_question f)
            \<and> sessionId (flight_request f) = Some (flight_session f)"
      proof cases
        case 1
        with accepted show ?thesis by simp
      next
        case 2
        from consistent_pending [OF assms 2(2)] show ?thesis by (simp add: nth_append)
      qed
    next
      fix i r out'
      assume "(i, r, out') \<in> set (sent (sv\<lparr>pending := (pending sv)(?n \<mapsto> f0),
                                              received := received sv @ [req]\<rparr>))"
      then have "(i, r, out') \<in> set (sent sv)" by simp
      from consistent_sent [OF assms this]
      show "i < length (received (sv\<lparr>pending := (pending sv)(?n \<mapsto> f0),
                                      received := received sv @ [req]\<rparr>))
            \<and> received (sv\<lparr>pending := (pending sv)(?n \<mapsto> f0),
                             received := received sv @ [req]\<rparr>) ! i = r
            \<and> (status (response out') = 200 \<longrightarrow>
                  (\<exists>q a. question r = Some q \<and> body (response out') = AnswerBody a))"
        by (simp add: nth_append)
    qed
  qed
next
  case (Resume k)
  show ?thesis
  proof (cases "pending sv k")
    case None
    with assms show ?thesis unfolding Resume by simp
  next
    case (Some fk)
    note fk = consistent_pending [OF assms Some]
    show ?thesis
    proof (cases "ask_resume fk (registry sv)")
      case (Inr f')
      note same = ask_resume_suspended [OF Inr]
      have st: "step e sv = sv\<lparr>pending := (pending sv)(k \<mapsto> f')\<rparr>"
        unfolding Resume using Some Inr by simp
      show ?thesis
        unfolding st
      proof (rule consistentI)
        fix i f
        assume "pending (sv\<lparr>pending := (pending sv)(k \<mapsto> f')\<rparr>) i = Some f"
        then consider "i = k" "f = f'" | "i \<noteq> k" "pending sv i = Some f"
          by (cases "i = k") auto
        then show "i < length (received (sv\<lparr>pending := (pending sv)(k \<mapsto> f')\<rparr>))
            \<and> received (sv\<lparr>pending := (pending sv)(k \<mapsto> f')\<rparr>) ! i = flight_request f
            \<and> question (flight_request f) = Some (flight_question f)
            \<and> sessionId (flight_request f) = Some (flight_session f)"
        proof cases
          case 1
          with fk same show ?thesis by simp
        next
          case 2
          from consistent_pending [OF assms 2(2)] show ?thesis by simp
        qed
      next
        fix i r out'
        assume "(i, r, out') \<in> set (sent (sv\<lparr>pending := (pending sv)(k \<mapsto> f')\<rparr>))"
        then have "(i, r, out') \<in> set (sent sv)" by simp
        from consistent_sent [OF assms this]
        show "i < length (received (sv\<lparr>pending := (pending sv)(k \<mapsto> f')\<rparr>))
            \<and> received (sv\<lparr>pending := (pending sv)(k \<mapsto> f')\<rparr>) ! i = r
            \<and> (status (response out') = 200 \<longrightarrow>
                  (\<exists>q a. question r = Some q \<and> body (response out') = AnswerBody a))"
          by simp
      qed
    next
      case (Inl out)
      from ask_resume_responded [OF Inl]
      have answer: "status (response out) = 200 \<longrightarrow>
              (\<exists>q a. question (flight_request fk) = Some q \<and> body (response out) = AnswerBody a)"
        using fk(3) by (auto simp: finish_response)
      have st: "step e sv = sv\<lparr>registry := sessionStore out,
                                 pending := (pending sv)(k := None),
                                 sent := sent sv @ [(k, flight_request fk, out)]\<rparr>"
        unfolding Resume using Some Inl by simp
      show ?thesis
        unfolding st
      proof (rule consistentI)
        fix i f
        assume "pending (sv\<lparr>registry := sessionStore out,
                            pending := (pending sv)(k := None),
                            sent := sent sv @ [(k, flight_request fk, out)]\<rparr>) i = Some f"
        then have "pending sv i = Some f" by (cases "i = k") auto
        from consistent_pending [OF assms this]
        show "i < length (received (sv\<lparr>registry := sessionStore out,
                            pending := (pending sv)(k := None),
                            sent := sent sv @ [(k, flight_request fk, out)]\<rparr>))
            \<and> received (sv\<lparr>registry := sessionStore out,
                            pending := (pending sv)(k := None),
                            sent := sent sv @ [(k, flight_request fk, out)]\<rparr>) ! i
                = flight_request f
            \<and> question (flight_request f) = Some (flight_question f)
            \<and> sessionId (flight_request f) = Some (flight_session f)"
          by simp
      next
        fix i r out'
        assume "(i, r, out') \<in> set (sent (sv\<lparr>registry := sessionStore out,
                            pending := (pending sv)(k := None),
                            sent := sent sv @ [(k, flight_request fk, out)]\<rparr>))"
        then consider "(i, r, out') \<in> set (sent sv)"
          | "i = k" "r = flight_request fk" "out' = out"
          by auto
        then show "i < length (received (sv\<lparr>registry := sessionStore out,
                            pending := (pending sv)(k := None),
                            sent := sent sv @ [(k, flight_request fk, out)]\<rparr>))
            \<and> received (sv\<lparr>registry := sessionStore out,
                            pending := (pending sv)(k := None),
                            sent := sent sv @ [(k, flight_request fk, out)]\<rparr>) ! i = r
            \<and> (status (response out') = 200 \<longrightarrow>
                  (\<exists>q a. question r = Some q \<and> body (response out') = AnswerBody a))"
        proof cases
          case 1
          from consistent_sent [OF assms 1] show ?thesis by simp
        next
          case 2
          with fk answer show ?thesis by simp
        qed
      qed
    qed
  qed
qed

lemma consistent_run: "consistent sv \<Longrightarrow> consistent (run_events es sv)"
  by (induction es arbitrary: sv) (simp_all add: consistent_step)

lemma exchanges_append: "exchanges sid (xs @ ys) = exchanges sid xs @ exchanges sid ys"
  by (simp add: exchanges_def)

lemma step_history:
  assumes "consistent sv" and "registry sv sid = Some s"
  shows "\<exists>s' new. registry (step e sv) sid = Some s' \<and> namespace s' = namespace s
           \<and> sent (step e sv) = sent sv @ new
           \<and> history s' = history s
               @ concat (map (\<lambda>(q, a). [userTurn q, modelTurn a]) (exchanges sid new))"
proof (cases e)
  case (Submit env req)
  show ?thesis
  proof (cases "ask_submit env req (registry sv)")
    case (Inl out)
    from ask_submit_rejected [OF Inl] have "status (response out) = 400" by blast
    then have "answered sid req out = []"
      by (auto split: option.splits body.splits)
    with Inl assms(2) show ?thesis
      unfolding Submit by (simp add: exchanges_def)
  next
    case (Inr f)
    with assms(2) show ?thesis
      unfolding Submit by (simp add: exchanges_def)
  qed
next
  case (Resume i)
  show ?thesis
  proof (cases "pending sv i")
    case None
    with assms(2) show ?thesis unfolding Resume by (simp add: exchanges_def)
  next
    case (Some f)
    from assms(1) Some have f:
      "question (flight_request f) = Some (flight_question f)"
      "sessionId (flight_request f) = Some (flight_session f)"
      unfolding consistent_def by blast+
    show ?thesis
    proof (cases "ask_resume f (registry sv)")
      case (Inr f')
      with Some assms(2) show ?thesis unfolding Resume by (simp add: exchanges_def)
    next
      case (Inl out)
      from ask_resume_responded [OF Inl]
      consider "status (response out) = 500" "sessionStore out = registry sv"
        | a where "out = finish f a (registry sv)"
        by blast
      then have "\<exists>s'. sessionStore out sid = Some s' \<and> namespace s' = namespace s
           \<and> history s' = history s
               @ concat (map (\<lambda>(q, a). [userTurn q, modelTurn a])
                   (answered sid (flight_request f) out))"
      proof cases
        case 1
        then have "answered sid (flight_request f) out = []"
          by (auto split: option.splits body.splits)
        with 1 assms(2) show ?thesis by simp
      next
        case 2
        with finish_history [OF f, of "registry sv" sid s a] assms(2) show ?thesis by simp
      qed
      with Some Inl show ?thesis
        unfolding Resume by (simp add: exchanges_def del: answered.simps)
    qed
  qed
qed

lemma run_history:
  assumes "consistent sv" and "registry sv sid = Some s"
  shows "\<exists>s' new. registry (run_events es sv) sid = Some s' \<and> namespace s' = namespace s
           \<and> sent (run_events es sv) = sent sv @ new
           \<and> history s' = history s
               @ concat (map (\<lambda>(q, a). [userTurn q, modelTurn a]) (exchanges sid new))"
  using assms
proof (induction es arbitrary: sv s)
  case Nil
  then show ?case by (simp add: exchanges_def)
next
  case (Cons e es)
  from step_history [of sv sid s e] Cons.prems
  obtain s1 new1 where s1: "registry (step e sv) sid = Some s1" "namespace s1 = namespace s"
    "sent (step e sv) = sent sv @ new1"
    "history s1 = history s
       @ concat (map (\<lambda>(q, a). [userTurn q, modelTurn a]) (exchanges sid new1))"
    by blast
  from Cons.IH [of "step e sv" s1] consistent_step [OF Cons.prems(1), of e] s1(1)
  obtain s' new2 where s': "registry (run_events es (step e sv)) sid = Some s'"
    "namespace s' = namespace s1"
    "sent (run_events es (step e sv)) = sent (step e sv) @ new2"
    "history s' = history s1
       @ concat (map (\<lambda>(q, a). [userTurn q, modelTurn a]) (exchanges sid new2))"
    by blast
  from s1 s' have "registry (run_events (e # es) sv) sid = Some s' \<and> namespace s' = namespace s
           \<and> sent (run_events (e # es) sv) = sent sv @ (new1 @ new2)
           \<and> history s' = history s
               @ concat (map (\<lambda>(q, a). [userTurn q, modelTurn a]) (exchanges sid (new1 @ new2)))"
    by (simp add: exchanges_append)
  then show ?case by blast
qed

lemma exchanges_count:
  assumes "\<forall>(i, req, out) \<in> set xs. status (response out) = 200 \<longrightarrow>
             (\<exists>q a. question req = Some q \<and> body (response out) = AnswerBody a)"
  shows "length (exchanges sid xs)
           = length (filter (\<lambda>(i, req, out). sessionId req = Some sid
                                \<and> status (response out) = 200) xs)"
  using assms
proof (induction xs)
  case Nil
  then show ?case by (simp add: exchanges_def)
next
  case (Cons x xs)
  obtain i req out where x: "x = (i, req, out)" by (cases x)
  from Cons.prems x
  have "length (answered sid req out)
          = (if sessionId req = Some sid \<and> status (response out) = 200 then 1 else 0)"
    by (auto split: option.splits body.splits)
  with Cons show ?case
    unfolding x by (simp add: exchanges_def del: answered.simps)
qed

lemma received_run: "received (run_events es sv) = received sv @ submissions es"
proof (induction es arbitrary: sv)
  case Nil
  then show ?case by simp
next
  case (Cons e es)
  have "received (step e sv) = received sv @ submissions [e]"
    by (cases e) (auto split: sum.splits option.splits)
  with Cons [of "step e sv"] show ?case by (cases e) simp_all
qed

lemma ask_submit_flight:
  assumes "ask_submit env req st = Inr f"
  obtains q sid session where
    "question req = Some q" "q \<noteq> []" "sessionId req = Some sid" "sid \<noteq> []"
    "st sid = Some session"
    "f = \<lparr>flight_env = env, flight_request = req, flight_question = q,
          flight_session = sid, flight_namespace = namespace session,
          flight_stage = Transforming (fst (transformQuery env q (history session))),
          flight_calls = snd (transformQuery env q (history session))\<rparr>"
  using assms
  by (auto simp: ask_submit_def Let_def split: option.splits prod.splits if_splits)

lemma five_awaits:
  assumes "ask_submit env req st = Inr f"
  shows "resume_times 5 f st = Inl (ask env req st)"
proof -
  from assms obtain q sid session where valid:
    "question req = Some q" "q \<noteq> []" "sessionId req = Some sid" "sid \<noteq> []"
    "st sid = Some session"
    and f: "f = \<lparr>flight_env = env, flight_request = req, flight_question = q,
          flight_session = sid, flight_namespace = namespace session,
          flight_stage = Transforming (fst (transformQuery env q (history session))),
          flight_calls = snd (transformQuery env q (history session))\<rparr>"
    by (rule ask_submit_flight)
  obtain tq c1 where tq: "transformQuery env q (history session) = (tq, c1)"
    by (cases "transformQuery env q (history session)")
  let ?ns = "namespace session"
  show ?thesis
  proof (cases "embedQuery env tq")
    case (Inl e)
    then have "retrieve env tq ?ns = (Inl e, [EmbedCall tq])"
      by (simp add: retrieve_def)
    from ask_retrieval_failed [where st = st and sid = sid and s = session, OF valid tq this] Inl show ?thesis
      unfolding f tq by (simp add: eval_nat_numeral ask_resume_def)
  next
    case embedded: (Inr v)
    show ?thesis
    proof (cases "fromExistingIndex env ?ns")
      case (Inl e)
      with embedded have "retrieve env tq ?ns = (Inl e, [EmbedCall tq, IndexCall ?ns])"
        by (simp add: retrieve_def)
      from ask_retrieval_failed [where st = st and sid = sid and s = session, OF valid tq this] Inl embedded show ?thesis
        unfolding f tq by (simp add: eval_nat_numeral ask_resume_def)
    next
      case opened: (Inr u)
      show ?thesis
      proof (cases "similaritySearchVectorWithScore env ?ns v 10")
        case (Inl e)
        with embedded opened
        have "retrieve env tq ?ns
                = (Inl e, [EmbedCall tq, IndexCall ?ns, SearchCall ?ns v 10])"
          by (simp add: retrieve_def)
        from ask_retrieval_failed [where st = st and sid = sid and s = session, OF valid tq this] Inl embedded opened show ?thesis
          unfolding f tq by (simp add: eval_nat_numeral ask_resume_def)
      next
        case found: (Inr results)
        with embedded opened
        have r: "retrieve env tq ?ns
                = (Inr results, [EmbedCall tq, IndexCall ?ns, SearchCall ?ns v 10])"
          by (simp add: retrieve_def)
        show ?thesis
        proof (cases "assembleContext results = []")
          case True
          then have "(if assembleContext results \<noteq> []
                      then generateAnswer env q (assembleContext results) else (refusal, []))
                     = (refusal, [])"
            by simp
          from ask_answered [where st = st and sid = sid and s = session, OF valid tq r this] True found embedded opened valid(5)
          show ?thesis
            unfolding f tq
            by (simp add: eval_nat_numeral ask_resume_def finish_def refusal_def
                  userTurn_def modelTurn_def)
        next
          case False
          obtain a c3 where g: "generateAnswer env q (assembleContext results) = (a, c3)"
            by (cases "generateAnswer env q (assembleContext results)")
          with False have "(if assembleContext results \<noteq> []
                      then generateAnswer env q (assembleContext results) else (refusal, []))
                     = (a, c3)"
            by simp
          from ask_answered [where st = st and sid = sid and s = session, OF valid tq r this] False found embedded opened valid(5) g
          show ?thesis
            unfolding f tq
            by (simp add: eval_nat_numeral ask_resume_def finish_def Let_def
                  userTurn_def modelTurn_def)
        qed
      qed
    qed
  qed
qed

lemma resume_idle:
  "pending sv n = None \<Longrightarrow> run_events (replicate k (Resume n)) sv = sv"
  by (induction k) simp_all

lemma resume_run:
  assumes "pending sv n = Some f" and "resume_times k f (registry sv) = Inl out"
  shows "run_events (replicate k (Resume n)) sv
           = sv\<lparr>registry := sessionStore out, pending := (pending sv)(n := None),
                sent := sent sv @ [(n, flight_request f, out)]\<rparr>"
  using assms
proof (induction k arbitrary: sv f)
  case 0
  then show ?case by simp
next
  case (Suc k)
  show ?case
  proof (cases "ask_resume f (registry sv)")
    case (Inl out')
    with Suc.prems(2) have out: "out' = out" by simp
    let ?sv' = "sv\<lparr>registry := sessionStore out, pending := (pending sv)(n := None),
                     sent := sent sv @ [(n, flight_request f, out)]\<rparr>"
    have a: "step (Resume n) sv = ?sv'"
      using Suc.prems(1) Inl out by simp
    have b: "run_events (replicate k (Resume n)) ?sv' = ?sv'"
      by (rule resume_idle) simp
    show ?thesis by (simp only: replicate_Suc run_events.simps a b)
  next
    case (Inr f')
    let ?sv' = "sv\<lparr>pending := (pending sv)(n \<mapsto> f')\<rparr>"
    have st: "step (Resume n) sv = ?sv'"
      using Suc.prems(1) Inr by simp
    have "resume_times k f' (registry ?sv') = Inl out"
      using Suc.prems(2) Inr by simp
    moreover have "pending ?sv' n = Some f'" by simp
    ultimately have "run_events (replicate k (Resume n)) ?sv'
           = ?sv'\<lparr>registry := sessionStore out, pending := (pending ?sv')(n := None),
                sent := sent ?sv' @ [(n, flight_request f', out)]\<rparr>"
      by (rule Suc.IH [rotated])
    also have "\<dots> = sv\<lparr>registry := sessionStore out, pending := (pending sv)(n := None),
                sent := sent sv @ [(n, flight_request f, out)]\<rparr>"
      using ask_resume_suspended [OF Inr] by simp
    finally have c: "run_events (replicate k (Resume n)) ?sv'
           = sv\<lparr>registry := sessionStore out, pending := (pending sv)(n := None),
                sent := sent sv @ [(n, flight_request f, out)]\<rparr>" .
    show ?thesis by (simp only: replicate_Suc run_events.simps st c)
  qed
qed

lemma one_request:
  assumes "pending sv (length (received sv)) = None"
  shows "run_events (Submit env req # replicate 5 (Resume (length (received sv)))) sv
           = sv\<lparr>registry := sessionStore (ask env req (registry sv)),
                received := received sv @ [req],
                sent := sent sv @ [(length (received sv), req, ask env req (registry sv))]\<rparr>"
proof (cases "ask_submit env req (registry sv)")
  case (Inl out)
  let ?sv' = "sv\<lparr>received := received sv @ [req],
                   sent := sent sv @ [(length (received sv), req, out)]\<rparr>"
  from ask_submit_rejected [OF Inl]
  have out: "out = ask env req (registry sv)" and same: "sessionStore out = registry sv"
    by blast+
  have "step (Submit env req) sv = ?sv'" using Inl by simp
  moreover have "run_events (replicate 5 (Resume (length (received sv)))) ?sv' = ?sv'"
    by (rule resume_idle) (simp add: assms)
  ultimately show ?thesis
    using same unfolding out by simp
next
  case (Inr f)
  let ?n = "length (received sv)"
  let ?sv' = "sv\<lparr>pending := (pending sv)(?n \<mapsto> f), received := received sv @ [req]\<rparr>"
  have st: "step (Submit env req) sv = ?sv'" using Inr by simp
  have "pending ?sv' ?n = Some f" by simp
  moreover have "resume_times 5 f (registry ?sv') = Inl (ask env req (registry sv))"
    using five_awaits [OF Inr] by simp
  ultimately have "run_events (replicate 5 (Resume ?n)) ?sv'
      = ?sv'\<lparr>registry := sessionStore (ask env req (registry sv)),
              pending := (pending ?sv')(?n := None),
              sent := sent ?sv' @ [(?n, flight_request f, ask env req (registry sv))]\<rparr>"
    by (rule resume_run)
  moreover have "(pending sv)(?n := None) = pending sv"
    using assms by (simp add: fun_upd_idem)
  ultimately show ?thesis
    using st ask_submit_accepted [OF Inr] by simp
qed

lemma run_events_append: "run_events (xs @ ys) sv = run_events ys (run_events xs sv)"
  by (induction xs arbitrary: sv) simp_all

lemma one_by_one_Cons:
  "one_by_one n ((env, req) # rest)
     = (Submit env req # replicate 5 (Resume n)) @ one_by_one (Suc n) rest"
  by (simp add: eval_nat_numeral)

lemma upt_shift: "[n..<n + Suc k] = n # [Suc n..<Suc n + k]"
  using upt_conv_Cons [of n "n + Suc k"] by simp

lemma one_by_one_run:
  assumes "pending sv = Map.empty"
  shows "pending (run_events (one_by_one (length (received sv)) reqs) sv) = Map.empty
       \<and> map (\<lambda>(i, req, out). (i, req)) (sent (run_events (one_by_one (length (received sv)) reqs) sv))
           = map (\<lambda>(i, req, out). (i, req)) (sent sv)
               @ zip [length (received sv)..<length (received sv) + length reqs] (map snd reqs)"
  using assms
proof (induction reqs arbitrary: sv)
  case Nil
  then show ?case by simp
next
  case (Cons r reqs)
  obtain env req where r: "r = (env, req)" by (cases r)
  let ?n = "length (received sv)"
  let ?sv' = "sv\<lparr>registry := sessionStore (ask env req (registry sv)),
                   received := received sv @ [req],
                   sent := sent sv @ [(?n, req, ask env req (registry sv))]\<rparr>"
  have one: "run_events (Submit env req # replicate 5 (Resume ?n)) sv = ?sv'"
    by (rule one_request) (simp add: Cons.prems)
  have run: "run_events (one_by_one ?n (r # reqs)) sv
               = run_events (one_by_one (length (received ?sv')) reqs) ?sv'"
    unfolding r one_by_one_Cons run_events_append one by simp
  have "pending ?sv' = Map.empty" using Cons.prems by simp
  from Cons.IH [OF this]
  have IH: "pending (run_events (one_by_one (length (received ?sv')) reqs) ?sv') = Map.empty"
    "map (\<lambda>(i, req, out). (i, req))
        (sent (run_events (one_by_one (length (received ?sv')) reqs) ?sv'))
       = map (\<lambda>(i, req, out). (i, req)) (sent ?sv')
           @ zip [length (received ?sv')..<length (received ?sv') + length reqs] (map snd reqs)"
    by blast+
  have "zip [?n..<?n + length (r # reqs)] (map snd (r # reqs))
          = (?n, req) # zip [Suc ?n..<Suc ?n + length reqs] (map snd reqs)"
    unfolding r by (simp only: length_Cons list.map snd_conv upt_shift zip_Cons_Cons)
  with IH show ?case unfolding run by simp
qed

lemma turns_length:
  "length (concat (map (\<lambda>(q, a). [userTurn q, modelTurn a]) xs)) = 2 * length xs"
  by (induction xs) auto

lemma turns_nth:
  "i < length xs \<Longrightarrow>
     concat (map (\<lambda>(q, a). [userTurn q, modelTurn a]) xs) ! (2 * i) = userTurn (fst (xs ! i))
     \<and> concat (map (\<lambda>(q, a). [userTurn q, modelTurn a]) xs) ! (2 * i + 1) = modelTurn (snd (xs ! i))"
proof (induction xs arbitrary: i)
  case Nil
  then show ?case by simp
next
  case (Cons x xs)
  then show ?case by (cases i) (auto split: prod.splits)
qed

text \<open>
  Claim C4, amended. Whatever the order in which the event loop takes the /ask requests
  through their awaits: when N questions were answered for a session that started with an
  empty history, the history of the session holds exactly 2N turns, and for the i-th
  answer sent the turn at position 2i is the user turn with the question as it arrived
  and the turn at position 2i + 1 is the model turn with the answer that was returned, the
  canonical refusal included. The pairs stand in the order in which the answers were sent.
  That is the order of arrival when the requests are handled one after the other; when
  requests to one session overlap it can differ from the order of arrival.
\<close>

theorem history_in_completion_order:
  assumes "st sid = Some s" and "history s = []"
  shows "\<exists>s'. registry (run_events evs (idle st)) sid = Some s'
           \<and> history s'
               = concat (map (\<lambda>(q, a). [userTurn q, modelTurn a])
                   (exchanges sid (sent (run_events evs (idle st)))))
           \<and> length (exchanges sid (sent (run_events evs (idle st))))
               = length (filter (\<lambda>(i, req, out). sessionId req = Some sid
                                    \<and> status (response out) = 200)
                           (sent (run_events evs (idle st))))
           \<and> length (history s') = 2 * length (exchanges sid (sent (run_events evs (idle st))))
           \<and> (\<forall>i < length (exchanges sid (sent (run_events evs (idle st)))).
                 history s' ! (2 * i)
                   = userTurn (fst (exchanges sid (sent (run_events evs (idle st))) ! i))
                 \<and> history s' ! (2 * i + 1)
                   = modelTurn (snd (exchanges sid (sent (run_events evs (idle st))) ! i)))
           \<and> (\<forall>(i, req, out) \<in> set (sent (run_events evs (idle st))).
                 i < length (submissions evs) \<and> submissions evs ! i = req)
           \<and> (\<forall>reqs. evs = one_by_one 0 reqs \<longrightarrow>
                 map (\<lambda>(i, req, out). (i, req)) (sent (run_events evs (idle st)))
                   = zip [0..<length reqs] (map snd reqs))"
proof -
  let ?sv = "run_events evs (idle st)"
  have cons: "consistent ?sv"
    by (rule consistent_run) (rule consistent_idle)
  from run_history [of "idle st" sid s evs] consistent_idle [of st] assms
  obtain s' where s': "registry ?sv sid = Some s'"
    "history s' = concat (map (\<lambda>(q, a). [userTurn q, modelTurn a]) (exchanges sid (sent ?sv)))"
    by (auto simp: idle_def)
  have count: "length (exchanges sid (sent ?sv))
                 = length (filter (\<lambda>(i, req, out). sessionId req = Some sid
                                      \<and> status (response out) = 200) (sent ?sv))"
    by (rule exchanges_count) (use cons in \<open>auto simp: consistent_def\<close>)
  have rec: "received ?sv = submissions evs"
    using received_run [of evs "idle st"] by (simp add: idle_def)
  have link: "\<forall>(i, req, out) \<in> set (sent ?sv).
                 i < length (submissions evs) \<and> submissions evs ! i = req"
    using cons unfolding consistent_def rec by auto
  have seq: "\<forall>reqs. evs = one_by_one 0 reqs \<longrightarrow>
                 map (\<lambda>(i, req, out). (i, req)) (sent ?sv) = zip [0..<length reqs] (map snd reqs)"
  proof (intro allI impI)
    fix reqs
    assume "evs = one_by_one 0 reqs"
    with one_by_one_run [of "idle st" reqs]
    show "map (\<lambda>(i, req, out). (i, req)) (sent ?sv) = zip [0..<length reqs] (map snd reqs)"
      by (simp add: idle_def)
  qed
  from s' count link seq turns_length turns_nth show ?thesis by auto
qed

theorem history_in_completion_order_witness:
  "\<exists>s'. registry (run_events demoRun (idle demoStore)) ''1700000000000'' = Some s'
      \<and> history s' = [userTurn ''How long?'', modelTurn ''Two years.'',
                       userTurn ''How long?'', modelTurn refusal]"
proof -
  let ?s = "\<lparr>namespace = ''pdf-1700000000000'', history = []\<rparr>"
  have s: "demoStore ''1700000000000'' = Some ?s" "history ?s = []"
    by (simp_all add: demoStore_def)
  have ex: "exchanges ''1700000000000'' (sent (run_events demoRun (idle demoStore)))
              = [(''How long?'', ''Two years.''), (''How long?'', refusal)]"
    by code_simp
  from history_in_completion_order [of demoStore "''1700000000000''" ?s demoRun] s
  show ?thesis unfolding ex by auto
qed

text \<open>
  Two overlapping questions to a fresh session, every collaborator answering: the question
  that arrived second is answered first, and its two turns stand first in the history.
\<close>

theorem overlapping_asks_swap_history:
  "submissions overlapping = [demoAsk, otherAsk]
   \<and> map_option history (registry (run_events overlapping (idle demoStore)) ''1700000000000'')
       = Some [userTurn ''Is shipping free?'', modelTurn ''Yes.'',
               userTurn ''How long?'', modelTurn ''Two years.'']"
  by code_simp

section \<open>A failed /ask leaves the registry alone\<close>

text \<open>
  Claim C10. A request to /ask that ends in a 500 response leaves the session registry,
  and so the history of every session, exactly as it was: the two turns are appended only
  once the answer exists.
\<close>

theorem ask_error_keeps_store:
  assumes "status (response (ask env req st)) = 500"
  shows "sessionStore (ask env req st) = st"
  using assms
  by (auto simp: ask_def reply_def Let_def split: option.splits sum.splits prod.splits if_splits)

theorem ask_error_keeps_store_witness:
  "status (response (ask embedDown demoAsk demoStoreAsked)) = 500
   \<and> sessionStore (ask embedDown demoAsk demoStoreAsked) = demoStoreAsked"
proof -
  have "status (response (ask embedDown demoAsk demoStoreAsked)) = 500"
    by code_simp
  with ask_error_keeps_store [of embedDown demoAsk demoStoreAsked] show ?thesis by simp
qed

section \<open>Failed uploads\<close>

text \<open>A failure of the loader, the splitter or the indexing leaves the registry as it was.\<close>

lemma upload_ingestion_failure:
  assumes "file = Some pdfPath"
    and "(\<exists>e. load env pdfPath = Inl e)
         \<or> (\<exists>rawDocs. load env pdfPath = Inr rawDocs
              \<and> ((\<exists>e. splitDocuments env rawDocs = Inl e)
                 \<or> (\<exists>chunkedDocs. splitDocuments env rawDocs = Inr chunkedDocs
                      \<and> (\<exists>e. fromDocuments env chunkedDocs (''pdf-'' @ now env) = Inl e))))"
  shows "status (fst (upload env file st)) = 500 \<and> snd (upload env file st) = st"
  using assms by (auto simp: upload_def Let_def)

text \<open>
  Claim C3. An upload whose ingestion fails answers 500 and leaves the session registry
  exactly as it was. The run below is an upload where loading, splitting and indexing
  succeed and the statistics call of line 102 throws: the response is 500, yet the
  registry, empty before, now holds the session stored at line 96.
\<close>

theorem upload_stats_failure_keeps_session:
  "upload statsDown (Some ''uploads/pdf-1.pdf'') Map.empty
     = (\<lparr>status = 500, body = ErrorBody ''Failed to process PDF: socket hang up''\<rparr>,
        [''1700000000000'' \<mapsto> \<lparr>namespace = ''pdf-1700000000000'', history = []\<rparr>])
   \<and> snd (upload statsDown (Some ''uploads/pdf-1.pdf'') Map.empty) \<noteq> Map.empty"
  by (simp add: upload_def statsDown_def Let_def)

end
